theory Spec2Isabelle
  imports Complex_Main "HOL-Library.Word"
begin

chapter \<open>The model\<close>

section \<open>Shared vocabulary\<close>

text \<open>
  Go \<^verbatim>\<open>error\<close> values. The SDK's own errors are opaque to this repository and are
  carried as \<open>SdkError\<close> with their message, those of the operating system (open, stat,
  read, write, truncate) as \<open>OsError\<close>, and \<^verbatim>\<open>io.EOF\<close> is \<open>IoEOF\<close>; every \<^verbatim>\<open>fmt.Errorf("...: %w", err)\<close> of the
  repository is one constructor wrapping the cause, with the formatted arguments kept.
\<close>

datatype error =
    SdkError string
  | OsError string
  | IoEOF
  | FailedToOpenFile error
  | FailedToStatFile error
  | FailedToStartMultipartUpload error
  | FailedToReadAtOffset int error
  | FailedToReadFile error
  | FailedToUploadPart int error
  | FailedToCompleteMultipartUpload error
  | HeadObjectFailed error
  | FailedToHeadObject error
  | FailedToCreateOutputFile error
  | FailedToPreAllocateFile error
  | FailedToGetObjectRange error
  | FailedToReadObject error
  | ChunkDownloadRangeFailed nat int int error
  | ChunkWriteFailed nat error
  | FailedToLoadAWSConfig error

type_synonym byte = "8 word"

text \<open>
  Go's \<^verbatim>\<open>int64\<close> and \<^verbatim>\<open>int32\<close> arithmetic wraps around silently. Values are carried as
  \<open>int\<close>, and every operation of the source that can leave the range is followed by the
  wrap-around of its type.
\<close>

definition int64 :: "int \<Rightarrow> int" where
  "int64 x = (x + 2 ^ 63) mod 2 ^ 64 - 2 ^ 63"

definition int32 :: "int \<Rightarrow> int" where
  "int32 x = (x + 2 ^ 31) mod 2 ^ 32 - 2 ^ 31"

section \<open>Existence probes (package s3ops)\<close>

text \<open>
  \<^verbatim>\<open>ObjectExists\<close> and \<^verbatim>\<open>BucketExists\<close> issue one \<^verbatim>\<open>HeadObject\<close> / \<^verbatim>\<open>HeadBucket\<close> call and look
  only at whether it failed. The call's outcome is the argument: \<open>Inl e\<close> is the SDK
  returning the error \<open>e\<close>, \<open>Inr out\<close> a successful response.
\<close>

definition ObjectExists :: "error + 'out \<Rightarrow> bool \<times> error option" where
  "ObjectExists headObject =
     (case headObject of
        Inl err \<Rightarrow> (False, None)
      | Inr out \<Rightarrow> (True, None))"

definition BucketExists :: "error + 'out \<Rightarrow> bool \<times> error option" where
  "BucketExists headBucket =
     (case headBucket of
        Inl err \<Rightarrow> (False, None)
      | Inr out \<Rightarrow> (True, None))"

section \<open>The chunk planner (download/run.go, in \<^verbatim>\<open>download\<close>)\<close>

record chunk =
  index :: nat
  start :: int
  end' :: int

text \<open>
  The planning loop of \<^verbatim>\<open>download\<close>:
  \<^verbatim>\<open>for i := int64(0); i < totalSize; i += d.chunkSize { end := i + d.chunkSize - 1;
  if end >= totalSize { end = totalSize - 1 }; chunks = append(chunks, chunk{len(chunks), i, end}) }\<close>.
  Nothing in the source bounds \<^verbatim>\<open>d.chunkSize\<close> or \<^verbatim>\<open>totalSize\<close>, so the counter can wrap
  around and the loop need not end: not returning is the value \<open>None\<close>.
\<close>

partial_function (option) chunks_loop :: "int \<Rightarrow> int \<Rightarrow> int \<Rightarrow> chunk list \<Rightarrow> chunk list option" where
  "chunks_loop totalSize chunkSize i chunks =
     (if i < totalSize then
        (let end0 = int64 (int64 (i + chunkSize) - 1);
             e = (if end0 \<ge> totalSize then int64 (totalSize - 1) else end0)
         in chunks_loop totalSize chunkSize (int64 (i + chunkSize))
              (chunks @ [\<lparr>index = length chunks, start = i, end' = e\<rparr>]))
      else Some chunks)"

declare chunks_loop.simps [code]

definition plan_chunks :: "int \<Rightarrow> int \<Rightarrow> chunk list option" where
  "plan_chunks totalSize chunkSize = chunks_loop totalSize chunkSize 0 []"

text \<open>
  The specification's closed form of the plan, for comparison with the loop: the number
  of pieces is the ceiling of the quotient, and piece \<open>k\<close> starts at \<open>k * chunkSize\<close> and
  ends one byte before the next piece or at the last byte of the object.
\<close>

definition piece_count :: "int \<Rightarrow> int \<Rightarrow> nat" where
  "piece_count totalSize chunkSize = nat \<lceil>real_of_int totalSize / real_of_int chunkSize\<rceil>"

definition piece :: "int \<Rightarrow> int \<Rightarrow> nat \<Rightarrow> chunk" where
  "piece totalSize chunkSize k =
     \<lparr>index = k, start = int k * chunkSize,
      end' = min (int k * chunkSize + chunkSize - 1) (totalSize - 1)\<rparr>"

section \<open>The progress display (download/run.go, \<^verbatim>\<open>render\<close>)\<close>

text \<open>
  \<^verbatim>\<open>render\<close> computes the percentage in \<^verbatim>\<open>float64\<close>. The model keeps what decides the
  range of the result: the special values of IEEE 754 (\<open>0/0\<close> is NaN, a non-zero value
  over zero is an infinity, every comparison with NaN is false). A finite result is
  carried as the exact real number; rounding is left out, since it is monotone and
  leaves \<open>0\<close> and \<open>100\<close> where they are.
\<close>

datatype float64 = Finite real | PosInf | NegInf | NaN

definition float64_of_int :: "int \<Rightarrow> float64" where
  "float64_of_int n = Finite (real_of_int n)"

fun fdiv :: "float64 \<Rightarrow> float64 \<Rightarrow> float64" where
  "fdiv (Finite a) (Finite b) =
     (if b = 0 then (if a = 0 then NaN else if 0 < a then PosInf else NegInf)
      else Finite (a / b))"
| "fdiv (Finite a) PosInf = Finite 0"
| "fdiv (Finite a) NegInf = Finite 0"
| "fdiv PosInf (Finite b) = (if 0 \<le> b then PosInf else NegInf)"
| "fdiv NegInf (Finite b) = (if 0 \<le> b then NegInf else PosInf)"
| "fdiv _ _ = NaN"

fun fmul :: "float64 \<Rightarrow> float64 \<Rightarrow> float64" where
  "fmul (Finite a) (Finite b) = Finite (a * b)"
| "fmul (Finite a) PosInf = (if a = 0 then NaN else if 0 < a then PosInf else NegInf)"
| "fmul (Finite a) NegInf = (if a = 0 then NaN else if 0 < a then NegInf else PosInf)"
| "fmul PosInf (Finite b) = (if b = 0 then NaN else if 0 < b then PosInf else NegInf)"
| "fmul NegInf (Finite b) = (if b = 0 then NaN else if 0 < b then NegInf else PosInf)"
| "fmul PosInf PosInf = PosInf"
| "fmul NegInf NegInf = PosInf"
| "fmul PosInf NegInf = NegInf"
| "fmul NegInf PosInf = NegInf"
| "fmul _ _ = NaN"

fun fgt :: "float64 \<Rightarrow> float64 \<Rightarrow> bool" where
  "fgt (Finite a) (Finite b) = (b < a)"
| "fgt PosInf (Finite b) = True"
| "fgt PosInf NegInf = True"
| "fgt (Finite a) NegInf = True"
| "fgt _ _ = False"

text \<open>
  Lines 105 to 110 of \<^verbatim>\<open>render\<close>, with \<open>bytes\<close> the value loaded from the shared counter:
  \<^verbatim>\<open>totalMB := float64(p.totalBytes) / 1024 / 1024; doneMB := float64(bytes) / 1024 / 1024;
  pct := doneMB / totalMB * 100; if pct > 100 { pct = 100 }\<close>.
\<close>

definition render_pct :: "int \<Rightarrow> int \<Rightarrow> float64" where
  "render_pct totalBytes bytes =
     (let totalMB = fdiv (fdiv (float64_of_int totalBytes) (Finite 1024)) (Finite 1024);
          doneMB = fdiv (fdiv (float64_of_int bytes) (Finite 1024)) (Finite 1024);
          pct = fmul (fdiv doneMB totalMB) (Finite 100)
      in if fgt pct (Finite 100) then Finite 100 else pct)"

text \<open>The range the specification gives for a percentage: a number from 0 to 100.\<close>

definition percent_in_range :: "float64 \<Rightarrow> bool" where
  "percent_in_range p = (case p of Finite r \<Rightarrow> 0 \<le> r \<and> r \<le> 100 | _ \<Rightarrow> False)"

section \<open>The client factory (s3client/client.go, config/loader.go)\<close>



















section \<open>Multipart upload (upload/run.go \<^verbatim>\<open>uploadMultipart\<close>, s3ops/upload.go \<^verbatim>\<open>UploadMultipart\<close>)\<close>

type_synonym metadata = "(string \<times> string) list"

record completed_part =
  ETag :: string
  PartNumber :: int

text \<open>
  What a run does to the world is the list of its calls, each with the answer it got:
  the reads of the local file (offset, length of the buffer, the buffer afterwards, the
  error) and the four multipart operations of the storage service (bucket, key, upload
  id and arguments, then the response).
\<close>

datatype event =
    EvRead int int "byte list" "error option"
  | EvCreateMultipartUpload string string metadata "error + string"
  | EvUploadPart string string string int "byte list" "error + string"
  | EvAbortMultipartUpload string string string "error option"
  | EvCompleteMultipartUpload string string string "completed_part list" "error option"

text \<open>
  The storage service is known by its responses only. Each operation answers as a
  function of everything that happened before in the run and of its arguments, so that
  every sequence of successes and failures is a service.
\<close>

record s3_service =
  CreateMultipartUpload :: "event list \<Rightarrow> string \<Rightarrow> string \<Rightarrow> metadata \<Rightarrow> error + string"
  UploadPart ::
    "event list \<Rightarrow> string \<Rightarrow> string \<Rightarrow> string \<Rightarrow> int \<Rightarrow> byte list \<Rightarrow> error + string"
  AbortMultipartUpload :: "event list \<Rightarrow> string \<Rightarrow> string \<Rightarrow> string \<Rightarrow> error option"
  CompleteMultipartUpload ::
    "event list \<Rightarrow> string \<Rightarrow> string \<Rightarrow> string \<Rightarrow> completed_part list \<Rightarrow> error option"

text \<open>
  The source file: its bytes, which do not change during the run and whose number is
  what \<^verbatim>\<open>Stat\<close> reports, and the failures of the operating system, if any, on opening
  it, on \<^verbatim>\<open>Stat\<close> and on reading at an offset.
\<close>

record local_file =
  open_error :: "string option"
  stat_error :: "string option"
  content :: "byte list"
  read_error :: "int \<Rightarrow> string option"

text \<open>
  \<^verbatim>\<open>(*os.File).ReadAt(buf, off)\<close> for a buffer of \<open>len\<close> zero bytes: the buffer afterwards and
  the error. It fills the buffer from the offset and reports \<^verbatim>\<open>io.EOF\<close> when the file ends
  before the buffer is full; an empty buffer reads nothing.
\<close>

definition ReadAt :: "local_file \<Rightarrow> nat \<Rightarrow> int \<Rightarrow> byte list \<times> error option" where
  "ReadAt f len off =
     (if off < 0 then (replicate len 0, Some (OsError ''negative offset''))
      else if len = 0 then ([], None)
      else
        (case read_error f off of
           Some e \<Rightarrow> (replicate len 0, Some (OsError e))
         | None \<Rightarrow>
             (let d = take len (drop (nat off) (content f))
              in (d @ replicate (len - length d) 0, if length d < len then Some IoEOF else None))))"

text \<open>
  \<^verbatim>\<open>(*os.File).Read(buf)\<close> at the file position \<open>pos\<close>: the buffer afterwards, the error, and
  the new position. It reads what is there, up to the length of the buffer, and reports
  \<^verbatim>\<open>io.EOF\<close> only when nothing is left.
\<close>

definition Read :: "local_file \<Rightarrow> nat \<Rightarrow> int \<Rightarrow> (byte list \<times> error option) \<times> int" where
  "Read f len pos =
     (if len = 0 then (([], None), pos)
      else
        (case read_error f pos of
           Some e \<Rightarrow> ((replicate len 0, Some (OsError e)), pos)
         | None \<Rightarrow>
             (let d = take len (drop (nat pos) (content f))
              in if d = [] then ((replicate len 0, Some IoEOF), pos)
                 else ((d @ replicate (len - length d) 0, None), pos + int (length d)))))"

text \<open>
  How the part loop ends: with the list of completed parts, with the error it returns
  after aborting, or in the panic of \<^verbatim>\<open>make([]byte, chunkSize)\<close> on a negative size. A
  function returns a value or panics.
\<close>

datatype loop_exit = LoopDone "completed_part list" | LoopFailed error | LoopPanicked

datatype 'a go_result = Returns 'a | Panics

text \<open>The test \<^verbatim>\<open>err != nil && err != io.EOF\<close> of \<^verbatim>\<open>uploadMultipart\<close>, with the error it lets through.\<close>

definition read_failure :: "error option \<Rightarrow> error option" where
  "read_failure err = (case err of None \<Rightarrow> None | Some e \<Rightarrow> if e = IoEOF then None else Some e)"

text \<open>
  The loop of \<^verbatim>\<open>uploadMultipart\<close> (upload/run.go, lines 212 to 256). The progress line it
  prints is left out. The part number is an \<^verbatim>\<open>int\<close>, converted to \<^verbatim>\<open>int32\<close> where it is
  sent and recorded.
\<close>

partial_function (option) uploadMultipart_loop ::
  "s3_service \<Rightarrow> local_file \<Rightarrow> string \<Rightarrow> string \<Rightarrow> string \<Rightarrow> int \<Rightarrow> int
   \<Rightarrow> int \<Rightarrow> int \<Rightarrow> completed_part list \<Rightarrow> event list \<Rightarrow> (event list \<times> loop_exit) option" where
  "uploadMultipart_loop client f bucket key uploadID totalSize partSizeBytes
       offset partNumber completedParts trace =
     (if offset < totalSize then
        (let remaining = totalSize - offset;
             chunkSize = (if remaining < partSizeBytes then remaining else partSizeBytes)
         in if chunkSize < 0 then Some (trace, LoopPanicked)
            else
              (let (buf, err) = ReadAt f (nat chunkSize) offset;
                   trace = trace @ [EvRead offset chunkSize buf err]
               in case read_failure err of
                    Some err \<Rightarrow>
                      (let aborted = AbortMultipartUpload client trace bucket key uploadID
                       in Some (trace @ [EvAbortMultipartUpload bucket key uploadID aborted],
                                LoopFailed (FailedToReadAtOffset offset err)))
                  | None \<Rightarrow>
                      (let uploadResp = UploadPart client trace bucket key uploadID (int32 partNumber) buf;
                           trace = trace @ [EvUploadPart bucket key uploadID (int32 partNumber) buf uploadResp]
                       in case uploadResp of
                            Inl err \<Rightarrow>
                              (let aborted = AbortMultipartUpload client trace bucket key uploadID
                               in Some (trace @ [EvAbortMultipartUpload bucket key uploadID aborted],
                                        LoopFailed (FailedToUploadPart partNumber err)))
                          | Inr etag \<Rightarrow>
                              uploadMultipart_loop client f bucket key uploadID totalSize partSizeBytes
                                (offset + chunkSize) (partNumber + 1)
                                (completedParts @ [\<lparr>ETag = etag, PartNumber = int32 partNumber\<rparr>])
                                trace)))
      else Some (trace, LoopDone completedParts))"

declare uploadMultipart_loop.simps [code]

text \<open>
  What both functions do once the loop is over: a panic goes on, a failure is returned
  (the abort has been sent inside the loop), and after the last part the upload is
  completed with the parts collected.
\<close>

definition finish_upload ::
  "s3_service \<Rightarrow> string \<Rightarrow> string \<Rightarrow> string \<Rightarrow> (event list \<times> loop_exit) option
   \<Rightarrow> (event list \<times> error option go_result) option" where
  "finish_upload client bucket key uploadID looped =
     (case looped of
        None \<Rightarrow> None
      | Some (trace, LoopPanicked) \<Rightarrow> Some (trace, Panics)
      | Some (trace, LoopFailed err) \<Rightarrow> Some (trace, Returns (Some err))
      | Some (trace, LoopDone completedParts) \<Rightarrow>
          (let completed = CompleteMultipartUpload client trace bucket key uploadID completedParts;
               trace = trace @ [EvCompleteMultipartUpload bucket key uploadID completedParts completed]
           in case completed of
                Some err \<Rightarrow> Some (trace, Returns (Some (FailedToCompleteMultipartUpload err)))
              | None \<Rightarrow> Some (trace, Returns None)))"

text \<open>\<^verbatim>\<open>uploadMultipart\<close> (upload/run.go): a part size of zero or less becomes 10 MiB.\<close>

definition uploadMultipart ::
  "s3_service \<Rightarrow> local_file \<Rightarrow> string \<Rightarrow> string \<Rightarrow> int \<Rightarrow> metadata
   \<Rightarrow> (event list \<times> error option go_result) option" where
  "uploadMultipart client f bucket key partSize meta =
     (case open_error f of
        Some err \<Rightarrow> Some ([], Returns (Some (FailedToOpenFile (OsError err))))
      | None \<Rightarrow>
     (case stat_error f of
        Some err \<Rightarrow> Some ([], Returns (Some (FailedToStatFile (OsError err))))
      | None \<Rightarrow>
     (let totalSize = int (length (content f));
          partSizeBytes = (if partSize \<le> 0 then 10 * 1024 * 1024 else partSize);
          createResp = CreateMultipartUpload client [] bucket key meta;
          trace = [EvCreateMultipartUpload bucket key meta createResp]
      in case createResp of
           Inl err \<Rightarrow> Some (trace, Returns (Some (FailedToStartMultipartUpload err)))
         | Inr uploadID \<Rightarrow>
             finish_upload client bucket key uploadID
               (uploadMultipart_loop client f bucket key uploadID totalSize partSizeBytes
                  0 1 [] trace))))"

text \<open>
  The loop of \<^verbatim>\<open>UploadMultipart\<close> (s3ops/upload.go, lines 239 to 287). It reads the file
  in sequence with \<^verbatim>\<open>file.Read\<close>, so the position of the file is part of the state, and it
  takes every error of the read, \<^verbatim>\<open>io.EOF\<close> too, as a failure. The progress callback is left
  out.
\<close>

partial_function (option) UploadMultipart_loop ::
  "s3_service \<Rightarrow> local_file \<Rightarrow> string \<Rightarrow> string \<Rightarrow> string \<Rightarrow> int \<Rightarrow> int
   \<Rightarrow> int \<Rightarrow> int \<Rightarrow> int \<Rightarrow> completed_part list \<Rightarrow> event list \<Rightarrow> (event list \<times> loop_exit) option" where
  "UploadMultipart_loop client f bucket key uploadID fileSize partSize
       pos offset partNumber completedParts trace =
     (if offset < fileSize then
        (let remaining = fileSize - offset;
             chunkSize = (if remaining < partSize then remaining else partSize)
         in if chunkSize < 0 then Some (trace, LoopPanicked)
            else
              (let ((buf, err), pos') = Read f (nat chunkSize) pos;
                   trace = trace @ [EvRead pos chunkSize buf err]
               in case err of
                    Some err \<Rightarrow>
                      (let aborted = AbortMultipartUpload client trace bucket key uploadID
                       in Some (trace @ [EvAbortMultipartUpload bucket key uploadID aborted],
                                LoopFailed (FailedToReadFile err)))
                  | None \<Rightarrow>
                      (let uploadResp = UploadPart client trace bucket key uploadID (int32 partNumber) buf;
                           trace = trace @ [EvUploadPart bucket key uploadID (int32 partNumber) buf uploadResp]
                       in case uploadResp of
                            Inl err \<Rightarrow>
                              (let aborted = AbortMultipartUpload client trace bucket key uploadID
                               in Some (trace @ [EvAbortMultipartUpload bucket key uploadID aborted],
                                        LoopFailed (FailedToUploadPart partNumber err)))
                          | Inr etag \<Rightarrow>
                              UploadMultipart_loop client f bucket key uploadID fileSize partSize
                                pos' (offset + chunkSize) (partNumber + 1)
                                (completedParts @ [\<lparr>ETag = etag, PartNumber = int32 partNumber\<rparr>])
                                trace)))
      else Some (trace, LoopDone completedParts))"

declare UploadMultipart_loop.simps [code]

text \<open>\<^verbatim>\<open>UploadMultipart\<close> (s3ops/upload.go): the part size is used as it is given.\<close>

definition UploadMultipart ::
  "s3_service \<Rightarrow> local_file \<Rightarrow> string \<Rightarrow> string \<Rightarrow> int
   \<Rightarrow> (event list \<times> error option go_result) option" where
  "UploadMultipart client f bucket key partSize =
     (case open_error f of
        Some err \<Rightarrow> Some ([], Returns (Some (FailedToOpenFile (OsError err))))
      | None \<Rightarrow>
     (case stat_error f of
        Some err \<Rightarrow> Some ([], Returns (Some (FailedToStatFile (OsError err))))
      | None \<Rightarrow>
     (let createResp = CreateMultipartUpload client [] bucket key [];
          trace = [EvCreateMultipartUpload bucket key [] createResp]
      in case createResp of
           Inl err \<Rightarrow> Some (trace, Returns (Some (FailedToStartMultipartUpload err)))
         | Inr uploadID \<Rightarrow>
             finish_upload client bucket key uploadID
               (UploadMultipart_loop client f bucket key uploadID (int (length (content f))) partSize
                  0 0 1 [] trace))))"

subsection \<open>Reading a run\<close>

text \<open>
  What the claims speak of, read off the list of calls: the parts submitted (number,
  body, response), the pairs recorded for the parts the service accepted, the abort and
  completion calls, the errors of the reads and part uploads that failed, and the byte
  ranges read.
\<close>

fun upload_calls :: "event list \<Rightarrow> (int \<times> byte list \<times> (error + string)) list" where
  "upload_calls [] = []"
| "upload_calls (EvUploadPart bucket key uploadID partNumber body resp # es) =
     (partNumber, body, resp) # upload_calls es"
| "upload_calls (_ # es) = upload_calls es"

fun accepted_parts :: "event list \<Rightarrow> completed_part list" where
  "accepted_parts [] = []"
| "accepted_parts (EvUploadPart bucket key uploadID partNumber body (Inr etag) # es) =
     \<lparr>ETag = etag, PartNumber = partNumber\<rparr> # accepted_parts es"
| "accepted_parts (_ # es) = accepted_parts es"

fun abort_calls :: "event list \<Rightarrow> (string \<times> string \<times> string \<times> error option) list" where
  "abort_calls [] = []"
| "abort_calls (EvAbortMultipartUpload bucket key uploadID resp # es) =
     (bucket, key, uploadID, resp) # abort_calls es"
| "abort_calls (_ # es) = abort_calls es"

fun complete_calls :: "event list \<Rightarrow> (string \<times> string \<times> string \<times> completed_part list) list" where
  "complete_calls [] = []"
| "complete_calls (EvCompleteMultipartUpload bucket key uploadID ps resp # es) =
     (bucket, key, uploadID, ps) # complete_calls es"
| "complete_calls (_ # es) = complete_calls es"

fun failed_steps :: "event list \<Rightarrow> error list" where
  "failed_steps [] = []"
| "failed_steps (EvRead off len buf (Some e) # es) = e # failed_steps es"
| "failed_steps (EvUploadPart bucket key uploadID partNumber body (Inl e) # es) = e # failed_steps es"
| "failed_steps (_ # es) = failed_steps es"

fun read_ranges :: "event list \<Rightarrow> (int \<times> int) list" where
  "read_ranges [] = []"
| "read_ranges (EvRead off len buf err # es) = (off, len) # read_ranges es"
| "read_ranges (_ # es) = read_ranges es"

text \<open>Ranges (offset, length) that follow one another from \<open>a\<close> to \<open>b\<close> without gap or overlap.\<close>

fun contiguous :: "int \<Rightarrow> (int \<times> int) list \<Rightarrow> int \<Rightarrow> bool" where
  "contiguous a [] b = (a = b)"
| "contiguous a ((off, len) # rs) b = (off = a \<and> 0 \<le> len \<and> contiguous (a + len) rs b)"

text \<open>A run is a multipart upload once the session has been created.\<close>

fun session_created :: "event list \<Rightarrow> bool" where
  "session_created (EvCreateMultipartUpload bucket key meta (Inr uploadID) # es) = True"
| "session_created _ = False"

text \<open>
  The state of the part loop between two iterations as long as nothing has failed: no
  abort and no completion yet, parts numbered \<open>int32 1, int32 2, ...\<close> in the order sent,
  each recorded with its tag, their bodies being the bytes of the file up to the
  offset, read in ranges of at most the part size that follow one another from 0.
\<close>

definition clean :: "byte list \<Rightarrow> int \<Rightarrow> int \<Rightarrow> int \<Rightarrow> completed_part list \<Rightarrow> event list \<Rightarrow> bool" where
  "clean c ps off pn parts tr \<longleftrightarrow>
     failed_steps tr = [] \<and> abort_calls tr = [] \<and> complete_calls tr = []
     \<and> map fst (upload_calls tr) = map (\<lambda>i. int32 (int i + 1)) [0..<length (upload_calls tr)]
     \<and> pn = int (length (upload_calls tr)) + 1
     \<and> parts = accepted_parts tr
     \<and> length (accepted_parts tr) = length (upload_calls tr)
     \<and> concat (map (fst \<circ> snd) (upload_calls tr)) = take (nat off) c
     \<and> contiguous 0 (read_ranges tr) off
     \<and> length (read_ranges tr) = length (upload_calls tr)
     \<and> list_all (\<lambda>r. snd r \<le> ps) (read_ranges tr)
     \<and> 0 \<le> off \<and> off \<le> int (length c)"

text \<open>
  A run that failed in a part: a clean run up to some iteration, then the read that
  failed, or the read and the part upload that failed, then one abort call, and the
  error returned wraps the error of that step.
\<close>

definition failed_at ::
  "byte list \<Rightarrow> int \<Rightarrow> string \<Rightarrow> string \<Rightarrow> string \<Rightarrow> event list \<Rightarrow> error \<Rightarrow> bool" where
  "failed_at c ps bucket key uploadID tr' err \<longleftrightarrow>
     (\<exists>tr0 F ab off' pn' parts0 e.
        tr' = tr0 @ F @ [EvAbortMultipartUpload bucket key uploadID ab]
        \<and> clean c ps off' pn' parts0 tr0
        \<and> failed_steps F = [e] \<and> abort_calls F = [] \<and> complete_calls F = []
        \<and> (err = FailedToReadAtOffset off' e \<or> err = FailedToReadFile e
             \<or> err = FailedToUploadPart pn' e))"

definition loop_post ::
  "byte list \<Rightarrow> int \<Rightarrow> string \<Rightarrow> string \<Rightarrow> string \<Rightarrow> (event list \<times> loop_exit) \<Rightarrow> bool" where
  "loop_post c ps bucket key uploadID y =
     (case snd y of
        LoopDone parts' \<Rightarrow>
          clean c ps (int (length c)) (int (length (upload_calls (fst y))) + 1) parts' (fst y)
      | LoopFailed err \<Rightarrow> failed_at c ps bucket key uploadID (fst y) err
      | LoopPanicked \<Rightarrow> ps < 0 \<and> (\<exists>off pn parts. clean c ps off pn parts (fst y)))"

chapter \<open>Properties\<close>

section \<open>Wrap-around\<close>

lemma int64_id: "- (2 ^ 63) \<le> x \<Longrightarrow> x < 2 ^ 63 \<Longrightarrow> int64 x = x"
  by (simp add: int64_def)

lemma int32_id: "- (2 ^ 31) \<le> x \<Longrightarrow> x < 2 ^ 31 \<Longrightarrow> int32 x = x"
  by (simp add: int32_def)

section \<open>Properties of the existence probes\<close>

text \<open>
  C9. \<^verbatim>\<open>ObjectExists\<close> and \<^verbatim>\<open>BucketExists\<close> return a nil error whatever the underlying
  head call did, and any failure of that call, of whatever kind, is reported as
  \<open>(False, nil)\<close>: the same pair for a permission or network error as for a missing
  object or bucket.
\<close>

theorem exists_probes_swallow_errors:
  "snd (ObjectExists r) = None
   \<and> snd (BucketExists r') = None
   \<and> ObjectExists (Inl e) = (False, None)
   \<and> BucketExists (Inl e') = (False, None)
   \<and> ObjectExists (Inl e1 :: error + 'a) = ObjectExists (Inl e2)
   \<and> BucketExists (Inl e1 :: error + 'b) = BucketExists (Inl e2)"
  by (simp add: ObjectExists_def BucketExists_def split: sum.splits)

section \<open>Properties of the chunk planner\<close>

lemma piece_count_upper:
  assumes "0 < c"
  shows "t \<le> int (piece_count t c) * c"
proof -
  have c: "0 < real_of_int c" using assms by simp
  have "real_of_int t / real_of_int c \<le> of_int \<lceil>real_of_int t / real_of_int c\<rceil>"
    by (rule le_of_int_ceiling)
  also have "\<dots> \<le> real (piece_count t c)"
    by (simp add: piece_count_def)
  finally have "real_of_int t \<le> real (piece_count t c) * real_of_int c"
    using c by (simp add: pos_divide_le_eq)
  then have "real_of_int t \<le> real_of_int (int (piece_count t c) * c)"
    by simp
  then show ?thesis by (simp only: of_int_le_iff)
qed

lemma piece_count_lower:
  assumes "0 < c" and "k < piece_count t c"
  shows "int k * c < t"
proof -
  have c: "0 < real_of_int c" using assms by simp
  let ?n = "\<lceil>real_of_int t / real_of_int c\<rceil>"
  have "int k < ?n" using assms(2) by (simp add: piece_count_def)
  then have "int k \<le> ?n - 1" by simp
  then have "real_of_int (int k) \<le> real_of_int (?n - 1)"
    by (simp only: of_int_le_iff)
  also have "real_of_int (?n - 1) < real_of_int t / real_of_int c"
    using ceiling_correct [of "real_of_int t / real_of_int c"] by simp
  finally have "real_of_int (int k) * real_of_int c < real_of_int t"
    using c by (simp add: pos_less_divide_eq)
  then have "real_of_int (int k * c) < real_of_int t" by simp
  then show ?thesis by (simp only: of_int_less_iff)
qed

lemma piece_count_zero: "piece_count 0 c = 0"
  by (simp add: piece_count_def)

lemma chunks_loop_step:
  assumes "0 < c" and "int (piece_count t c) * c < 2 ^ 63" and "k < piece_count t c"
  shows "chunks_loop t c (int k * c) acc =
         chunks_loop t c (int (Suc k) * c)
           (acc @ [\<lparr>index = length acc, start = int k * c,
                    end' = min (int k * c + c - 1) (t - 1)\<rparr>])"
proof -
  let ?i = "int k * c"
  have lt: "?i < t" using assms(1,3) by (rule piece_count_lower)
  have nonneg: "0 \<le> ?i" using assms(1) by simp
  have "int (Suc k) \<le> int (piece_count t c)" using assms(3) by simp
  then have "int (Suc k) * c \<le> int (piece_count t c) * c"
    using assms(1) by (simp only: mult_le_cancel_right) simp
  then have next_lt: "?i + c < 2 ^ 63" using assms(2) by (simp add: algebra_simps)
  have t_lt: "t < 2 ^ 63" using lt next_lt assms(1) piece_count_upper [OF assms(1), of t] assms(2) by linarith
  have a: "int64 (?i + c) = ?i + c"
    using nonneg assms(1) next_lt by (intro int64_id) linarith+
  have b: "int64 (?i + c - 1) = ?i + c - 1"
    using nonneg assms(1) next_lt by (intro int64_id) linarith+
  have d: "int64 (t - 1) = t - 1"
    using nonneg lt t_lt by (intro int64_id) linarith+
  have e: "(if t \<le> ?i + c - 1 then t - 1 else ?i + c - 1) = min (?i + c - 1) (t - 1)"
    by (simp add: min_def)
  have s: "int (Suc k) * c = ?i + c" by (simp add: algebra_simps)
  show ?thesis
    apply (subst chunks_loop.simps)
    apply (simp only: lt if_True a b d Let_def e s)
    done
qed

lemma chunks_loop_exit:
  assumes "0 < c"
  shows "chunks_loop t c (int (piece_count t c) * c) acc = Some acc"
  using piece_count_upper [OF assms, of t]
  by (subst chunks_loop.simps) simp

lemma chunks_loop_correct:
  assumes "0 < c" and "int (piece_count t c) * c < 2 ^ 63"
  shows "k \<le> piece_count t c \<Longrightarrow> length acc = k \<Longrightarrow>
         chunks_loop t c (int k * c) acc = Some (acc @ map (piece t c) [k..<piece_count t c])"
proof (induction "piece_count t c - k" arbitrary: k acc)
  case 0
  then have "k = piece_count t c" by simp
  then show ?case using chunks_loop_exit [OF assms(1)] by simp
next
  case (Suc d)
  then have lt: "k < piece_count t c" by simp
  have d: "d = piece_count t c - Suc k" using Suc.hyps(2) by simp
  have "chunks_loop t c (int (Suc k) * c) (acc @ [piece t c k])
        = Some ((acc @ [piece t c k]) @ map (piece t c) [Suc k..<piece_count t c])"
    using Suc.hyps(1) [OF d] lt Suc.prems(2) by simp
  moreover have "[k..<piece_count t c] = k # [Suc k..<piece_count t c]"
    using lt by (simp add: upt_conv_Cons)
  ultimately show ?case
    using chunks_loop_step [OF assms lt, of acc] Suc.prems(2)
    by (simp add: piece_def)
qed

lemma plan_chunks_eq:
  assumes "0 < c" and "int (piece_count t c) * c < 2 ^ 63"
  shows "plan_chunks t c = Some (map (piece t c) [0..<piece_count t c])"
  using chunks_loop_correct [OF assms, of 0 "[]"] by (simp add: plan_chunks_def)

lemma pieces_sorted:
  assumes "0 < c"
  shows "sorted_wrt (\<lambda>a b. index a < index b \<and> end' a < start b) (map (piece t c) [0..<n])"
proof -
  have "end' (piece t c i) < start (piece t c j)" if "i < j" for i j
  proof -
    have "int (Suc i) \<le> int j" using that by simp
    then have "int (Suc i) * c \<le> int j * c"
      using assms by (simp only: mult_le_cancel_right) simp
    then have "int i * c + c \<le> int j * c" by (simp add: algebra_simps)
    then show ?thesis by (simp add: piece_def)
  qed
  then show ?thesis
    by (simp add: sorted_wrt_iff_nth_less piece_def)
qed

lemma pieces_union:
  assumes "0 < c"
  shows "(\<Union>p \<in> set (map (piece t c) [0..<piece_count t c]). {start p..end' p}) = {0..<t}"
proof (intro set_eqI iffI)
  fix x
  assume "x \<in> (\<Union>p \<in> set (map (piece t c) [0..<piece_count t c]). {start p..end' p})"
  then obtain k where k: "k < piece_count t c" "int k * c \<le> x" "x \<le> t - 1"
    by (auto simp: piece_def)
  have "0 \<le> int k * c" using assms by simp
  then show "x \<in> {0..<t}" using k by simp
next
  fix x
  assume "x \<in> {0..<t}"
  then have x: "0 \<le> x" "x < t" by simp_all
  define k where "k = nat (x div c)"
  have kc: "int k * c = x - x mod c"
    using x assms by (simp add: k_def pos_imp_zdiv_nonneg_iff minus_mod_eq_div_mult)
  have m: "0 \<le> x mod c" "x mod c < c" using assms by simp_all
  have lo: "int k * c \<le> x" and hi: "x \<le> int k * c + c - 1" using kc m by linarith+
  have "k < piece_count t c"
  proof (rule ccontr)
    assume "\<not> k < piece_count t c"
    then have "int (piece_count t c) \<le> int k" by simp
    then have "int (piece_count t c) * c \<le> int k * c"
      using assms by (simp only: mult_le_cancel_right) simp
    then show False using piece_count_upper [OF assms, of t] lo x by linarith
  qed
  moreover have "x \<in> {start (piece t c k)..end' (piece t c k)}"
    using lo hi x by (simp add: piece_def)
  ultimately show "x \<in> (\<Union>p \<in> set (map (piece t c) [0..<piece_count t c]). {start p..end' p})"
    by auto
qed

lemma pieces_last_length:
  assumes "0 < c" and "0 < piece_count t c"
  shows "end' (piece t c (piece_count t c - 1)) - start (piece t c (piece_count t c - 1)) + 1
         = t - (int (piece_count t c) - 1) * c"
proof -
  let ?n = "piece_count t c"
  have "int (?n - 1) * c + c = int ?n * c"
    using assms(2) by (simp add: algebra_simps of_nat_diff)
  then have "t - 1 \<le> int (?n - 1) * c + c - 1"
    using piece_count_upper [OF assms(1), of t] by linarith
  then have "end' (piece t c (?n - 1)) = t - 1" by (simp add: piece_def min_def)
  moreover have "int (?n - 1) = int ?n - 1" using assms(2) by (simp add: of_nat_diff)
  ultimately show ?thesis by (simp add: piece_def)
qed

lemma pieces_nonempty:
  assumes "0 < c" and "k < piece_count t c"
  shows "start (piece t c k) \<le> end' (piece t c k)"
  using piece_count_lower [OF assms] assms(1) by (simp add: piece_def)

text \<open>
  C1, as the code has it. For every \<open>totalSize \<ge> 0\<close> and \<open>chunkSize > 0\<close> whose piece
  count times the piece size stays below \<open>2^63\<close> (the loop counter never leaves
  \<^verbatim>\<open>int64\<close>), the planner returns, and its pieces are numbered \<open>0, 1, ...\<close> in order, each
  ends before the next one starts (so they are strictly ordered and pairwise disjoint),
  none is empty, and together they cover exactly \<open>[0, totalSize)\<close>; their number is
  \<open>ceil(totalSize / chunkSize)\<close>, the last one has
  \<open>totalSize - (count - 1) * chunkSize\<close> bytes, and a zero-length object has no piece.
\<close>

theorem plan_chunks_partition:
  assumes "0 \<le> totalSize" and "0 < chunkSize"
    and "\<lceil>real_of_int totalSize / real_of_int chunkSize\<rceil> * chunkSize < 2 ^ 63"
  shows "\<exists>chunks. plan_chunks totalSize chunkSize = Some chunks
     \<and> map index chunks = [0..<length chunks]
     \<and> sorted_wrt (\<lambda>a b. index a < index b \<and> end' a < start b) chunks
     \<and> (\<forall>p \<in> set chunks. start p \<le> end' p)
     \<and> (\<Union>p \<in> set chunks. {start p..end' p}) = {0..<totalSize}
     \<and> int (length chunks) = \<lceil>real_of_int totalSize / real_of_int chunkSize\<rceil>
     \<and> (chunks \<noteq> [] \<longrightarrow>
          end' (last chunks) - start (last chunks) + 1
            = totalSize - (int (length chunks) - 1) * chunkSize)
     \<and> (totalSize = 0 \<longrightarrow> chunks = [])"
proof -
  let ?n = "piece_count totalSize chunkSize"
  let ?cs = "map (piece totalSize chunkSize) [0..<?n]"
  have ceil_nonneg: "0 \<le> \<lceil>real_of_int totalSize / real_of_int chunkSize\<rceil>"
  proof -
    have "0 \<le> real_of_int totalSize / real_of_int chunkSize"
      using assms(1,2) by simp
    then have "- 1 < real_of_int totalSize / real_of_int chunkSize" by linarith
    then show ?thesis by (simp only: zero_le_ceiling)
  qed
  then have n: "int ?n = \<lceil>real_of_int totalSize / real_of_int chunkSize\<rceil>"
    by (simp add: piece_count_def)
  have bound: "int ?n * chunkSize < 2 ^ 63" using assms(3) n by simp
  have 1: "plan_chunks totalSize chunkSize = Some ?cs"
    using assms(2) bound by (rule plan_chunks_eq)
  have 2: "map index ?cs = [0..<length ?cs]"
    by (simp add: piece_def comp_def map_idI)
  have 3: "sorted_wrt (\<lambda>a b. index a < index b \<and> end' a < start b) ?cs"
    using assms(2) by (rule pieces_sorted)
  have 4: "\<forall>p \<in> set ?cs. start p \<le> end' p"
    using pieces_nonempty [OF assms(2)] by auto
  have 5: "(\<Union>p \<in> set ?cs. {start p..end' p}) = {0..<totalSize}"
    using assms(2) by (rule pieces_union)
  have 6: "int (length ?cs) = \<lceil>real_of_int totalSize / real_of_int chunkSize\<rceil>"
    using n by simp
  have 7: "end' (last ?cs) - start (last ?cs) + 1
            = totalSize - (int (length ?cs) - 1) * chunkSize" if "?cs \<noteq> []"
  proof -
    have pos: "0 < ?n" using that by simp
    then have "last ?cs = piece totalSize chunkSize (?n - 1)"
      by (simp add: last_map last_upt)
    then show ?thesis using pieces_last_length [OF assms(2) pos] by simp
  qed
  have 8: "?cs = []" if "totalSize = 0"
    using that by (simp add: piece_count_zero)
  show ?thesis
    using 1 2 3 4 5 6 7 8 by blast
qed

text \<open>
  The specification's example: 25 MiB in pieces of 10 MiB gives three pieces, the last
  of 5 MiB.
\<close>

theorem plan_chunks_partition_witness:
  "\<exists>chunks. plan_chunks 26214400 10485760 = Some chunks
     \<and> map index chunks = [0..<length chunks]
     \<and> sorted_wrt (\<lambda>a b. index a < index b \<and> end' a < start b) chunks
     \<and> (\<Union>p \<in> set chunks. {start p..end' p}) = {0..<26214400}
     \<and> int (length chunks) = 3
     \<and> end' (last chunks) - start (last chunks) + 1 = 5242880"
proof -
  have c: "\<lceil>real_of_int 26214400 / real_of_int 10485760\<rceil> = 3"
    by (simp add: ceiling_eq_iff)
  have ev: "plan_chunks 26214400 10485760 =
      Some [\<lparr>index = 0, start = 0, end' = 10485759\<rparr>,
            \<lparr>index = 1, start = 10485760, end' = 20971519\<rparr>,
            \<lparr>index = 2, start = 20971520, end' = 26214399\<rparr>]"
    by (simp add: plan_chunks_def chunks_loop.simps int64_def)
  show ?thesis
    using plan_chunks_partition [of 26214400 10485760]
    unfolding c ev by simp
qed

text \<open>
  C1 as stated, for every non-negative size and every positive piece size, fails where
  the counter wraps around. An object of \<open>11 * 2^59 + 1\<close> bytes in pieces of
  \<open>11 * 2^59\<close> bytes (\<^verbatim>\<open>-chunk-size 6047313952768\<close>) should have two pieces; the second
  addition \<^verbatim>\<open>i + d.chunkSize\<close> overflows, and the loop goes on from a negative offset and
  returns four pieces, two of them with negative bounds.
\<close>

theorem plan_chunks_overflow_counterexample:
  "(0::int) \<le> 11 * 2 ^ 59 + 1 \<and> (0::int) < 11 * 2 ^ 59 \<and> (11 * 2 ^ 59 + 1 :: int) < 2 ^ 63
   \<and> plan_chunks (11 * 2 ^ 59 + 1) (11 * 2 ^ 59) =
       Some [\<lparr>index = 0, start = 0, end' = 6341068275337658367\<rparr>,
             \<lparr>index = 1, start = 6341068275337658368, end' = - 5764607523034234881\<rparr>,
             \<lparr>index = 2, start = - 5764607523034234880, end' = 576460752303423487\<rparr>,
             \<lparr>index = 3, start = 576460752303423488, end' = 6341068275337658368\<rparr>]
   \<and> \<lceil>real_of_int (11 * 2 ^ 59 + 1) / real_of_int (11 * 2 ^ 59)\<rceil> = 2"
  by (simp add: plan_chunks_def chunks_loop.simps int64_def ceiling_eq_iff)

section \<open>Properties of the progress display\<close>

text \<open>
  For an object of at least one byte and a non-negative counter the percentage is a
  number between 0 and 100.
\<close>

lemma render_pct_positive_total:
  assumes "0 < totalBytes" and "0 \<le> bytes"
  shows "percent_in_range (render_pct totalBytes bytes)"
  using assms
  by (simp add: render_pct_def percent_in_range_def float64_of_int_def Let_def)

text \<open>
  C6 at its own edge case. For a zero-length object both megabyte figures are \<open>0\<close>, the
  quotient is \<open>0/0\<close>, and the comparison \<^verbatim>\<open>pct > 100\<close> is false for NaN: the percentage of
  the snapshot is NaN, which is no value of \<open>[0, 100]\<close>.
\<close>

theorem render_pct_empty_object:
  "render_pct 0 0 = NaN \<and> \<not> percent_in_range (render_pct 0 0)"
  by (simp add: render_pct_def percent_in_range_def float64_of_int_def)

section \<open>Properties of the client factory\<close>









section \<open>Properties of the multipart upload\<close>

subsection \<open>Reading a run piece by piece\<close>

lemma upload_calls_append [simp]: "upload_calls (xs @ ys) = upload_calls xs @ upload_calls ys"
  by (induction xs rule: upload_calls.induct) simp_all

lemma accepted_parts_append [simp]: "accepted_parts (xs @ ys) = accepted_parts xs @ accepted_parts ys"
  by (induction xs rule: accepted_parts.induct) simp_all

lemma abort_calls_append [simp]: "abort_calls (xs @ ys) = abort_calls xs @ abort_calls ys"
  by (induction xs rule: abort_calls.induct) simp_all

lemma complete_calls_append [simp]: "complete_calls (xs @ ys) = complete_calls xs @ complete_calls ys"
  by (induction xs rule: complete_calls.induct) simp_all

lemma failed_steps_append [simp]: "failed_steps (xs @ ys) = failed_steps xs @ failed_steps ys"
  by (induction xs rule: failed_steps.induct) simp_all

lemma read_ranges_append [simp]: "read_ranges (xs @ ys) = read_ranges xs @ read_ranges ys"
  by (induction xs rule: read_ranges.induct) simp_all

lemma contiguous_append:
  "contiguous a (rs @ rs') c \<longleftrightarrow> (\<exists>b. contiguous a rs b \<and> contiguous b rs' c)"
  by (induction a rs c rule: contiguous.induct) auto

lemma contiguous_snoc:
  "contiguous a rs b \<Longrightarrow> 0 \<le> len \<Longrightarrow> contiguous a (rs @ [(b, len)]) (b + len)"
  by (auto simp: contiguous_append)

lemma take_extend:
  assumes "0 \<le> off" and "0 \<le> n"
  shows "take (nat off) c @ take (nat n) (drop (nat off) c) = take (nat (off + n)) c"
  using assms by (simp add: nat_add_distrib take_add)

subsection \<open>Reads inside the file\<close>

lemma ReadAt_in_range:
  assumes "read_error f off = None" and "0 \<le> off" and "0 < n"
    and "off + int n \<le> int (length (content f))"
  shows "ReadAt f n off = (take n (drop (nat off) (content f)), None)"
  using assms by (simp add: ReadAt_def Let_def)

lemma ReadAt_failed:
  assumes "read_error f off = Some e" and "0 \<le> off" and "0 < n"
  shows "ReadAt f n off = (replicate n 0, Some (OsError e))"
  using assms by (simp add: ReadAt_def)

lemma Read_in_range:
  assumes "n = 0 \<or> read_error f off = None" and "0 \<le> off"
    and "off + int n \<le> int (length (content f))"
  shows "Read f n off = ((take n (drop (nat off) (content f)), None), off + int n)"
proof (cases "n = 0")
  case True
  then show ?thesis by (simp add: Read_def)
next
  case False
  then have "take n (drop (nat off) (content f)) \<noteq> []" using assms(2,3) by auto
  moreover have "length (take n (drop (nat off) (content f))) = n" using assms(2,3) by auto
  ultimately show ?thesis using False assms(1) by (simp add: Read_def Let_def)
qed

lemma Read_failed:
  assumes "read_error f off = Some e" and "0 < n"
  shows "Read f n off = ((replicate n 0, Some (OsError e)), off)"
  using assms by (simp add: Read_def)

subsection \<open>The part loops\<close>

text \<open>One successful iteration keeps the state clean, and a failing one ends the run as \<open>failed_at\<close> says.\<close>

lemma clean_step:
  assumes "clean c ps off pn parts tr" and "0 \<le> n" and "n \<le> ps" and "off + n \<le> int (length c)"
  shows "clean c ps (off + n) (pn + 1) (parts @ [\<lparr>ETag = etag, PartNumber = int32 pn\<rparr>])
           ((tr @ [EvRead off n (take (nat n) (drop (nat off) c)) None])
               @ [EvUploadPart bucket key uploadID (int32 pn) (take (nat n) (drop (nat off) c)) (Inr etag)])"
  using assms
  by (auto simp: clean_def take_extend contiguous_snoc)

lemma failed_atI:
  assumes "clean c ps off pn parts tr0"
    and "failed_steps F = [e]" and "abort_calls F = []" and "complete_calls F = []"
    and "err = FailedToReadAtOffset off e \<or> err = FailedToReadFile e \<or> err = FailedToUploadPart pn e"
  shows "failed_at c ps bucket key uploadID (tr0 @ F @ [EvAbortMultipartUpload bucket key uploadID ab]) err"
  unfolding failed_at_def using assms by blast

text \<open>
  Whatever the loop of \<^verbatim>\<open>uploadMultipart\<close> returns from a clean state, with a positive part
  size, is a clean run to the end of the file or a run that failed in one part and
  aborted once; it does not panic.
\<close>

lemma uploadMultipart_loop_post:
  assumes "uploadMultipart_loop client f bucket key uploadID totalSize ps off pn parts tr = Some y"
    and "totalSize = int (length (content f))" and "0 < ps" and "clean (content f) ps off pn parts tr"
  shows "loop_post (content f) ps bucket key uploadID y"
proof -
  have "totalSize = int (length (content f)) \<longrightarrow> 0 < ps \<longrightarrow> clean (content f) ps off pn parts tr
        \<longrightarrow> loop_post (content f) ps bucket key uploadID y"
  apply (rule uploadMultipart_loop.raw_induct
      [where P = "\<lambda>client f bucket key uploadID totalSize ps off pn parts tr y.
         totalSize = int (length (content f)) \<longrightarrow> 0 < ps \<longrightarrow> clean (content f) ps off pn parts tr
        \<longrightarrow> loop_post (content f) ps bucket key uploadID y", OF _ assms(1)])
  subgoal premises prems for loop client f bucket key uploadID totalSize ps off pn parts tr y
  proof (intro impI)
    assume tot: "totalSize = int (length (content f))" and ps: "0 < ps"
      and cl: "clean (content f) ps off pn parts tr"
    let ?c = "content f"
    have off0: "0 \<le> off" and offle: "off \<le> totalSize" using cl tot by (simp_all add: clean_def)
    show "loop_post ?c ps bucket key uploadID y"
    proof (cases "off < totalSize")
      case False
      then have y: "y = (tr, LoopDone parts)" using prems(2) by simp
      have "off = totalSize" using False offle by simp
      then show ?thesis using cl y tot by (simp add: clean_def loop_post_def)
    next
      case True
      define n where "n = (if totalSize - off < ps then totalSize - off else ps)"
      have n: "0 < n" "off + n \<le> totalSize" "n \<le> ps" using True ps by (simp_all add: n_def)
      then have nneg: "\<not> n < 0" by simp
      let ?slice = "take (nat n) (drop (nat off) ?c)"
      show ?thesis
      proof (cases "read_error f off")
        case (Some m)
        have rd: "ReadAt f (nat n) off = (replicate (nat n) 0, Some (OsError m))"
          using Some off0 n(1) by (intro ReadAt_failed) simp_all
        let ?F = "[EvRead off n (replicate (nat n) 0) (Some (OsError m))]"
        obtain ab where y: "y = (tr @ ?F @ [EvAbortMultipartUpload bucket key uploadID ab],
                      LoopFailed (FailedToReadAtOffset off (OsError m)))"
          using prems(2) True nneg rd
          by (auto simp add: n_def [symmetric] Let_def read_failure_def)
        have "failed_at ?c ps bucket key uploadID
                (tr @ ?F @ [EvAbortMultipartUpload bucket key uploadID ab])
                (FailedToReadAtOffset off (OsError m))"
          using cl by (rule failed_atI) simp_all
        then show ?thesis using y by (simp add: loop_post_def)
      next
        case None
        have rd: "ReadAt f (nat n) off = (?slice, None)"
          using None off0 n(1,2) tot by (intro ReadAt_in_range) simp_all
        let ?tr1 = "tr @ [EvRead off n ?slice None]"
        let ?resp = "UploadPart client ?tr1 bucket key uploadID (int32 pn) ?slice"
        show ?thesis
        proof (cases ?resp)
          case (Inl e)
          let ?F = "[EvRead off n ?slice None,
                     EvUploadPart bucket key uploadID (int32 pn) ?slice (Inl e)]"
          obtain ab where y: "y = (tr @ ?F @ [EvAbortMultipartUpload bucket key uploadID ab],
                      LoopFailed (FailedToUploadPart pn e))"
            using prems(2) True nneg rd Inl
            by (auto simp add: n_def [symmetric] Let_def read_failure_def)
          have "failed_at ?c ps bucket key uploadID
                  (tr @ ?F @ [EvAbortMultipartUpload bucket key uploadID ab])
                  (FailedToUploadPart pn e)"
            using cl by (rule failed_atI) simp_all
          then show ?thesis using y by (simp add: loop_post_def)
        next
          case (Inr etag)
          let ?tr2 = "?tr1 @ [EvUploadPart bucket key uploadID (int32 pn) ?slice (Inr etag)]"
          let ?parts2 = "parts @ [\<lparr>ETag = etag, PartNumber = int32 pn\<rparr>]"
          have rec: "loop client f bucket key uploadID totalSize ps (off + n) (pn + 1) ?parts2 ?tr2 = Some y"
            using prems(2) True nneg rd Inr
            by (simp add: n_def [symmetric] Let_def read_failure_def)
          have cl2: "clean ?c ps (off + n) (pn + 1) ?parts2 ?tr2"
            using cl n tot by (intro clean_step) simp_all
          from prems(1) [OF rec] tot ps cl2 show ?thesis by blast
        qed
      qed
    qed
  qed
  done
  then show ?thesis using assms(2-4) by blast
qed

text \<open>
  The same for the loop of \<^verbatim>\<open>UploadMultipart\<close>, for every part size, as long as the file
  position is the offset: here the loop can also panic, and it does so only for a
  negative part size and before anything has failed.
\<close>

lemma UploadMultipart_loop_post:
  assumes "UploadMultipart_loop client f bucket key uploadID fileSize ps pos off pn parts tr = Some y"
    and "fileSize = int (length (content f))" and "pos = off" and "clean (content f) ps off pn parts tr"
  shows "loop_post (content f) ps bucket key uploadID y"
proof -
  have "fileSize = int (length (content f)) \<longrightarrow> pos = off \<longrightarrow> clean (content f) ps off pn parts tr
        \<longrightarrow> loop_post (content f) ps bucket key uploadID y"
  apply (rule UploadMultipart_loop.raw_induct
      [where P = "\<lambda>client f bucket key uploadID fileSize ps pos off pn parts tr y.
         fileSize = int (length (content f)) \<longrightarrow> pos = off \<longrightarrow> clean (content f) ps off pn parts tr
        \<longrightarrow> loop_post (content f) ps bucket key uploadID y", OF _ assms(1)])
  subgoal premises prems for loop client f bucket key uploadID fileSize ps pos off pn parts tr y
  proof (intro impI)
    assume tot: "fileSize = int (length (content f))" and pos: "pos = off"
      and cl: "clean (content f) ps off pn parts tr"
    let ?c = "content f"
    have off0: "0 \<le> off" and offle: "off \<le> fileSize" using cl tot by (simp_all add: clean_def)
    show "loop_post ?c ps bucket key uploadID y"
    proof (cases "off < fileSize")
      case False
      then have y: "y = (tr, LoopDone parts)" using prems(2) by simp
      have "off = fileSize" using False offle by simp
      then show ?thesis using cl y tot by (simp add: clean_def loop_post_def)
    next
      case True
      define n where "n = (if fileSize - off < ps then fileSize - off else ps)"
      show ?thesis
      proof (cases "n < 0")
        case neg: True
        then have "ps < 0" using True by (simp add: n_def split: if_splits)
        moreover have "y = (tr, LoopPanicked)"
          using prems(2) True neg by (simp add: n_def [symmetric] Let_def)
        ultimately show ?thesis using cl by (auto simp: loop_post_def)
      next
        case nneg: False
        have n: "0 \<le> n" "off + n \<le> fileSize" "n \<le> ps" using True nneg by (simp_all add: n_def)
        let ?slice = "take (nat n) (drop (nat off) ?c)"
        show ?thesis
        proof (cases "0 < n \<and> read_error f off \<noteq> None")
          case True
          then obtain m where m: "read_error f off = Some m" and npos: "0 < n" by auto
          have rd: "Read f (nat n) off = ((replicate (nat n) 0, Some (OsError m)), off)"
            using m npos by (intro Read_failed) simp_all
          let ?F = "[EvRead off n (replicate (nat n) 0) (Some (OsError m))]"
          obtain ab where y: "y = (tr @ ?F @ [EvAbortMultipartUpload bucket key uploadID ab],
                        LoopFailed (FailedToReadFile (OsError m)))"
            using prems(2) \<open>off < fileSize\<close> nneg rd pos
            by (auto simp add: n_def [symmetric] Let_def)
          have "failed_at ?c ps bucket key uploadID
                  (tr @ ?F @ [EvAbortMultipartUpload bucket key uploadID ab])
                  (FailedToReadFile (OsError m))"
            using cl by (rule failed_atI) simp_all
          then show ?thesis using y by (simp add: loop_post_def)
        next
          case False
          then have "nat n = 0 \<or> read_error f off = None" using n(1) by auto
          then have rd: "Read f (nat n) off = ((?slice, None), off + n)"
            using off0 n(1,2) tot Read_in_range [of "nat n" f off] by simp
          let ?tr1 = "tr @ [EvRead off n ?slice None]"
          let ?resp = "UploadPart client ?tr1 bucket key uploadID (int32 pn) ?slice"
          show ?thesis
          proof (cases ?resp)
            case (Inl e)
            let ?F = "[EvRead off n ?slice None,
                       EvUploadPart bucket key uploadID (int32 pn) ?slice (Inl e)]"
            obtain ab where y: "y = (tr @ ?F @ [EvAbortMultipartUpload bucket key uploadID ab],
                        LoopFailed (FailedToUploadPart pn e))"
              using prems(2) \<open>off < fileSize\<close> nneg rd Inl pos
              by (auto simp add: n_def [symmetric] Let_def)
            have "failed_at ?c ps bucket key uploadID
                    (tr @ ?F @ [EvAbortMultipartUpload bucket key uploadID ab])
                    (FailedToUploadPart pn e)"
              using cl by (rule failed_atI) simp_all
            then show ?thesis using y by (simp add: loop_post_def)
          next
            case (Inr etag)
            let ?tr2 = "?tr1 @ [EvUploadPart bucket key uploadID (int32 pn) ?slice (Inr etag)]"
            let ?parts2 = "parts @ [\<lparr>ETag = etag, PartNumber = int32 pn\<rparr>]"
            have rec: "loop client f bucket key uploadID fileSize ps (off + n) (off + n) (pn + 1)
                         ?parts2 ?tr2 = Some y"
              using prems(2) \<open>off < fileSize\<close> nneg rd Inr pos
              by (simp add: n_def [symmetric] Let_def)
            have cl2: "clean ?c ps (off + n) (pn + 1) ?parts2 ?tr2"
              using cl n tot by (intro clean_step) simp_all
            from prems(1) [OF rec] tot cl2 show ?thesis by blast
          qed
        qed
      qed
    qed
  qed
  done
  then show ?thesis using assms(2-4) by blast
qed

text \<open>
  The loop of \<^verbatim>\<open>uploadMultipart\<close> returns for every positive part size, and the loop of
  \<^verbatim>\<open>UploadMultipart\<close> for every part size other than zero: each iteration that goes on
  moves the offset forward.
\<close>

lemma uploadMultipart_loop_returns:
  assumes "0 < ps"
  shows "\<exists>y. uploadMultipart_loop client f bucket key uploadID totalSize ps off pn parts tr = Some y"
proof (induction "nat (totalSize - off)" arbitrary: off pn parts tr rule: less_induct)
  case less
  show ?case
  proof (cases "off < totalSize")
    case False
    then show ?thesis by (subst uploadMultipart_loop.simps) simp
  next
    case True
    define n where "n = (if totalSize - off < ps then totalSize - off else ps)"
    have n: "0 < n" using True assms by (simp add: n_def)
    have IH1: "\<exists>y. uploadMultipart_loop client f bucket key uploadID totalSize ps totalSize pn' parts' tr'
                 = Some y" for pn' parts' tr'
      by (subst uploadMultipart_loop.simps) simp
    have IH2: "\<exists>y. uploadMultipart_loop client f bucket key uploadID totalSize ps (off + ps) pn' parts' tr'
                 = Some y" for pn' parts' tr'
    proof -
      have "nat (totalSize - (off + ps)) < nat (totalSize - off)" using True assms by simp
      from less [OF this] show ?thesis .
    qed
    show ?thesis
      apply (subst uploadMultipart_loop.simps)
      using True n IH1 IH2
      apply (simp add: Let_def split: prod.splits option.splits sum.splits)
      done
  qed
qed

lemma UploadMultipart_loop_returns:
  assumes "ps \<noteq> 0"
  shows "\<exists>y. UploadMultipart_loop client f bucket key uploadID fileSize ps pos off pn parts tr = Some y"
proof (induction "nat (fileSize - off)" arbitrary: pos off pn parts tr rule: less_induct)
  case less
  show ?case
  proof (cases "off < fileSize")
    case False
    then show ?thesis by (subst UploadMultipart_loop.simps) simp
  next
    case True
    define n where "n = (if fileSize - off < ps then fileSize - off else ps)"
    show ?thesis
    proof (cases "n < 0")
      case neg: True
      show ?thesis
        apply (subst UploadMultipart_loop.simps)
        using True neg
        apply (simp add: n_def [symmetric] Let_def)
        done
    next
      case False
      then have n: "0 < n" using True assms by (simp add: n_def split: if_splits)
      then have ps: "0 < ps" using True by (simp add: n_def split: if_splits)
      have IH1: "\<exists>y. UploadMultipart_loop client f bucket key uploadID fileSize ps pos' fileSize pn' parts' tr'
                   = Some y" for pos' pn' parts' tr'
        by (subst UploadMultipart_loop.simps) simp
      have IH2: "\<exists>y. UploadMultipart_loop client f bucket key uploadID fileSize ps pos' (off + ps) pn' parts' tr'
                   = Some y" for pos' pn' parts' tr'
      proof -
        have "nat (fileSize - (off + ps)) < nat (fileSize - off)" using True ps by simp
        from less [OF this] show ?thesis .
      qed
      show ?thesis
        apply (subst UploadMultipart_loop.simps)
        using True n ps IH1 IH2
        apply (simp add: Let_def split: prod.splits option.splits sum.splits)
        done
    qed
  qed
qed

subsection \<open>Whole runs\<close>

text \<open>
  A run that created its session, or in which a step failed, went through the part loop
  from the clean state after the creation call, and ended as \<open>finish_upload\<close> says.
\<close>

lemma clean_initial:
  "clean c ps 0 1 [] [EvCreateMultipartUpload bucket key meta (Inr uploadID)]"
  by (simp add: clean_def)

lemma uploadMultipart_run:
  assumes "uploadMultipart client f bucket key partSize meta = Some (trace, res)"
    and "session_created trace \<or> failed_steps trace \<noteq> []"
  shows "\<exists>uploadID y ps. 0 < ps \<and> loop_post (content f) ps bucket key uploadID y
           \<and> finish_upload client bucket key uploadID (Some y) = Some (trace, res)"
proof -
  define ps where "ps = (if partSize \<le> 0 then 10 * 1024 * 1024 else partSize)"
  have ps: "0 < ps" by (simp add: ps_def)
  let ?create = "CreateMultipartUpload client [] bucket key meta"
  from assms obtain uploadID where cr: "?create = Inr uploadID"
    and fin: "finish_upload client bucket key uploadID
           (uploadMultipart_loop client f bucket key uploadID (int (length (content f))) ps 0 1 []
              [EvCreateMultipartUpload bucket key meta (Inr uploadID)]) = Some (trace, res)"
    by (auto simp: uploadMultipart_def Let_def ps_def [symmetric] split: option.splits sum.splits)
  from fin obtain y where y: "uploadMultipart_loop client f bucket key uploadID (int (length (content f))) ps 0 1 []
              [EvCreateMultipartUpload bucket key meta (Inr uploadID)] = Some y"
    by (cases "uploadMultipart_loop client f bucket key uploadID (int (length (content f))) ps 0 1 []
              [EvCreateMultipartUpload bucket key meta (Inr uploadID)]") (auto simp: finish_upload_def)
  have "loop_post (content f) ps bucket key uploadID y"
    using y refl ps clean_initial by (rule uploadMultipart_loop_post)
  then show ?thesis using ps fin [unfolded y] by blast
qed

lemma UploadMultipart_run:
  assumes "UploadMultipart client f bucket key partSize = Some (trace, res)"
    and "session_created trace \<or> failed_steps trace \<noteq> []"
  shows "\<exists>uploadID y. loop_post (content f) partSize bucket key uploadID y
           \<and> finish_upload client bucket key uploadID (Some y) = Some (trace, res)"
proof -
  let ?create = "CreateMultipartUpload client [] bucket key []"
  from assms obtain uploadID where cr: "?create = Inr uploadID"
    and fin: "finish_upload client bucket key uploadID
           (UploadMultipart_loop client f bucket key uploadID (int (length (content f))) partSize 0 0 1 []
              [EvCreateMultipartUpload bucket key [] (Inr uploadID)]) = Some (trace, res)"
    by (auto simp: UploadMultipart_def Let_def split: option.splits sum.splits)
  from fin obtain y where y: "UploadMultipart_loop client f bucket key uploadID (int (length (content f))) partSize 0 0 1 []
              [EvCreateMultipartUpload bucket key [] (Inr uploadID)] = Some y"
    by (cases "UploadMultipart_loop client f bucket key uploadID (int (length (content f))) partSize 0 0 1 []
              [EvCreateMultipartUpload bucket key [] (Inr uploadID)]") (auto simp: finish_upload_def)
  have "loop_post (content f) partSize bucket key uploadID y"
    using y refl refl clean_initial by (rule UploadMultipart_loop_post)
  then show ?thesis using fin [unfolded y] by blast
qed

lemma failed_at_observed:
  assumes "failed_at c ps bucket key uploadID tr err"
  shows "\<exists>e ab. failed_steps tr = [e] \<and> abort_calls tr = [(bucket, key, uploadID, ab)]
           \<and> complete_calls tr = []
           \<and> (\<exists>es. tr = es @ [EvAbortMultipartUpload bucket key uploadID ab])
           \<and> (\<exists>n off. err = FailedToUploadPart n e \<or> err = FailedToReadAtOffset off e
                  \<or> err = FailedToReadFile e)"
proof -
  from assms obtain tr0 F ab off' pn' parts0 e where
    tr: "tr = tr0 @ F @ [EvAbortMultipartUpload bucket key uploadID ab]"
    and cl: "clean c ps off' pn' parts0 tr0"
    and F: "failed_steps F = [e]" "abort_calls F = []" "complete_calls F = []"
    and err: "err = FailedToReadAtOffset off' e \<or> err = FailedToReadFile e \<or> err = FailedToUploadPart pn' e"
    unfolding failed_at_def by blast
  have 1: "failed_steps tr = [e]" using tr cl F by (simp add: clean_def)
  have 2: "abort_calls tr = [(bucket, key, uploadID, ab)]" using tr cl F by (simp add: clean_def)
  have 3: "complete_calls tr = []" using tr cl F by (simp add: clean_def)
  have 4: "\<exists>es. tr = es @ [EvAbortMultipartUpload bucket key uploadID ab]"
    using tr by (intro exI [of _ "tr0 @ F"]) simp
  show ?thesis using 1 2 3 4 err by blast
qed

lemma accepted_numbers:
  "failed_steps tr = [] \<Longrightarrow> map PartNumber (accepted_parts tr) = map fst (upload_calls tr)"
  by (induction tr rule: failed_steps.induct) simp_all

lemma accepted_tags:
  "failed_steps tr = [] \<Longrightarrow>
     map (\<lambda>p. Inr (ETag p)) (accepted_parts tr) = map (\<lambda>u. snd (snd u)) (upload_calls tr)"
  by (induction tr rule: failed_steps.induct) simp_all

lemma int32_numbers:
  assumes "n < 2 ^ 31"
  shows "map (\<lambda>i. int32 (int i + 1)) [0..<n] = map int [1..<n + 1]"
proof -
  have "int32 (int i + 1) = int (i + 1)" if "i < n" for i
  proof -
    have "int i + 1 < 2 ^ 31" using that assms by simp
    then show ?thesis by (simp add: int32_id)
  qed
  then have "map (\<lambda>i. int32 (int i + 1)) [0..<n] = map (\<lambda>i. int (i + 1)) [0..<n]"
    by (intro map_cong) simp_all
  also have "\<dots> = map int (map Suc [0..<n])" by (simp add: comp_def)
  also have "map Suc [0..<n] = [1..<n + 1]" by (simp add: map_Suc_upt)
  finally show ?thesis .
qed

end
